theory Spec2Isabelle
  imports Main "HOL-Library.Word"
begin

unbundle bit_operations_syntax

section \<open>The many-to-one diode (many\_to\_one.go)\<close>

text \<open>
  A sequential embedding of the ManyToOne ring buffer: the struct is a record, each method
  takes the struct and returns the updated struct together with what the call returned or
  the run-time panic that ended it. One goroutine at a time is modelled, so the atomic
  operations are plain reads and writes and the RWMutex \<open>mu\<close> has no effect and no field.
  The \<open>log.Println\<close> lines on the collision paths write to the process log only and are
  left out.
\<close>

subsection \<open>Data\<close>

type_synonym uint64 = "64 word"

text \<open>The run-time panics the code can raise.\<close>

datatype panic =
    MakesliceLenOutOfRange
  | IntegerDivideByZero
  | NilPointerDereference

text \<open>
  Modelled from the spec: the \<open>bucket\<close> struct is declared in another file of the package;
  many\_to\_one.go uses its two fields \<open>data\<close> (a GenericDataType) and \<open>seq\<close> (a uint64),
  the spec's slot content "(sequence: u64, value: T)". The carried value is a type
  parameter.
\<close>

record 'a bucket =
  data :: 'a
  seq :: uint64

text \<open>
  Modelled from the spec: the \<open>Alerter\<close> interface is declared in another file of the
  package; it is the spec's drop notifier, a callback with the single method
  \<open>Alert(int)\<close> about which nothing else is assumed. An alerter stands here for what
  the engine does to it: the list of the arguments of the \<open>Alert\<close> calls it has received
  so far, oldest first.
\<close>

type_synonym Alerter = "int list"

text \<open>
  The struct. \<open>buffer\<close> is the slice of slots, \<open>None\<close> for a nil pointer.
\<close>

record 'a ManyToOne =
  writeIndex :: uint64
  buffer :: "'a bucket option list"
  readIndex :: uint64
  alerter :: Alerter

subsection \<open>Construction\<close>

text \<open>
  \<open>NewManyToOne(size int, alerter Alerter)\<close>. \<open>size\<close> is a Go \<open>int\<close>, 64 bits wide and
  signed (read with \<open>sint\<close>). \<open>make([]unsafe.Pointer, size)\<close> panics for a negative
  length and yields \<open>size\<close> nil slots otherwise (the allocation limit of the machine is
  not modelled). The alerter argument is the list of calls the collaborator has already
  received, \<open>None\<close> for a nil alerter, which the code replaces by a function that does
  nothing. \<open>^d.writeIndex\<close> is the bitwise complement of the zero value.
\<close>

definition NewManyToOne :: "64 word \<Rightarrow> Alerter option \<Rightarrow> panic + 'a ManyToOne" where
  "NewManyToOne sz alerter0 =
     (let alerter1 = (case alerter0 of None \<Rightarrow> [] | Some a \<Rightarrow> a) in
      if sint sz < 0 then Inl MakesliceLenOutOfRange
      else
        let d = \<lparr>writeIndex = 0, buffer = replicate (nat (sint sz)) None,
                 readIndex = 0, alerter = alerter1\<rparr>
        in Inr (d\<lparr>writeIndex := NOT (writeIndex d)\<rparr>))"

subsection \<open>Set\<close>

text \<open>
  \<open>atomic.CompareAndSwapPointer(addr, old, new)\<close> on slot \<open>addr\<close> of a slice: the slice
  after the call and whether the swap happened. Pointers are compared through the
  contents they point to; the code only ever compares a slot with the pointer it has just
  loaded from that slot, or with nil, where both comparisons agree.
\<close>

definition CompareAndSwapPointer ::
  "'p list \<Rightarrow> nat \<Rightarrow> 'p \<Rightarrow> 'p \<Rightarrow> 'p list \<times> bool" where
  "CompareAndSwapPointer mem addr old new =
     (if mem ! addr = old then (mem[addr := new], True) else (mem, False))"

text \<open>The collision test of \<open>Set\<close> (lines 50 to 52), with \<open>n = uint64(len(d.buffer))\<close>.\<close>

definition collision :: "'a bucket option \<Rightarrow> uint64 \<Rightarrow> uint64 \<Rightarrow> bool" where
  "collision old wi n = (case old of None \<Rightarrow> False | Some b \<Rightarrow> seq b > wi - n)"

text \<open>
  The \<open>for\<close> loop of \<open>Set\<close>, one iteration per unfolding. The modulo by a zero length
  panics after the increment of the write index. Both \<open>continue\<close> statements are
  recursive calls.
\<close>

function Set :: "'a ManyToOne \<Rightarrow> 'a \<Rightarrow> 'a ManyToOne \<times> (panic + unit)" where
  "Set d dat =
     (let wi = writeIndex d + 1;
          d1 = d\<lparr>writeIndex := wi\<rparr>;
          n = (of_nat (length (buffer d1)) :: uint64)
      in if n = 0 then (d1, Inl IntegerDivideByZero)
         else
           let idx = unat (wi mod n);
               old = buffer d1 ! idx
           in if collision old wi n then Set d1 dat
              else
                let newBucket = \<lparr>data = dat, seq = wi\<rparr>;
                    (buf, swapped) = CompareAndSwapPointer (buffer d1) idx old (Some newBucket);
                    d2 = d1\<lparr>buffer := buf\<rparr>
                in if \<not> swapped then Set d2 dat
                   else (d2, Inr ()))"
  by pat_completeness auto

text \<open>
  The loop ends: a slot cannot collide with the sequence number \<open>n - 1\<close>, because then
  \<open>writeIndex - n\<close> is the largest uint64, and every iteration moves the write index one
  step closer to \<open>n - 1\<close>. The swap of a slot against the pointer just loaded from it does
  not fail in a sequential run.
\<close>

termination
proof (relation "measure (\<lambda>(d, dat). unat (of_nat (length (buffer d)) - 2 - writeIndex d))")
  show "wf (measure (\<lambda>(d :: 'a ManyToOne, dat :: 'a).
          unat ((of_nat (length (buffer d)) :: uint64) - 2 - writeIndex d)))"
    by simp
next
  fix d :: "'a ManyToOne" and dat :: 'a and wi d1 n idx old
  assume a: "wi = writeIndex d + 1" "d1 = d\<lparr>writeIndex := wi\<rparr>"
    "n = (of_nat (length (buffer d1)) :: uint64)" "old = buffer d1 ! idx"
    "collision old wi n"
  from a(5) obtain b :: "'a bucket" where b: "seq b > wi - n"
    by (auto simp: collision_def split: option.splits)
  have "wi - n \<noteq> - 1"
  proof
    assume "wi - n = - 1"
    with b have "seq b > (- 1 :: uint64)" by simp
    then show False by simp
  qed
  then have ne: "n - 2 - writeIndex d \<noteq> 0"
    using a(1) by (auto simp: algebra_simps)
  have eq: "n - 2 - wi = (n - 2 - writeIndex d) - 1"
    using a(1) by simp
  have "unat ((n - 2 - writeIndex d) - 1) = unat (n - 2 - writeIndex d) - 1"
    using ne by (rule unat_minus_one)
  moreover have "0 < unat (n - 2 - writeIndex d)"
    using ne by (simp only: unat_gt_0 word_neq_0_conv)
  ultimately have "unat (n - 2 - wi) < unat (n - 2 - writeIndex d)"
    unfolding eq by linarith
  then show "((d1, dat), (d, dat)) \<in> measure (\<lambda>(d, dat).
          unat ((of_nat (length (buffer d)) :: uint64) - 2 - writeIndex d))"
    using a(1,2,3) by simp
next
  fix d :: "'a ManyToOne" and dat :: 'a and wi d1 n idx old newBucket x buf swapped d2
  assume a: "d1 = d\<lparr>writeIndex := wi\<rparr>" "old = buffer d1 ! idx"
    "x = CompareAndSwapPointer (buffer d1) idx old (Some newBucket)"
    "(buf, swapped) = x" "\<not> swapped"
  then have False
    by (simp add: CompareAndSwapPointer_def)
  then show "((d2, dat), (d, dat)) \<in> measure (\<lambda>(d, dat).
          unat ((of_nat (length (buffer d)) :: uint64) - 2 - writeIndex d))"
    by simp
qed

declare Set.simps [simp del]

subsection \<open>TryNext\<close>

text \<open>
  \<open>TryNext\<close>, statement by statement. \<open>int(dropped)\<close> reads the 64 bits as a signed value.
  \<open>result.data\<close> on a nil \<open>result\<close> (possible only after the reload of the catch-up path)
  panics, after the increment of the read index.
\<close>

definition TryNext :: "'a ManyToOne \<Rightarrow> 'a ManyToOne \<times> (panic + 'a option \<times> bool)" where
  "TryNext d =
     (let n = (of_nat (length (buffer d)) :: uint64)
      in if n = 0 then (d, Inl IntegerDivideByZero)
         else
           let idx = unat (readIndex d mod n);
               result = buffer d ! idx
           in case result of
                None \<Rightarrow> (d, Inr (None, False))
              | Some r \<Rightarrow>
                  let (d3, idx3, result3) =
                        (if seq r > readIndex d then
                           let dropped = (writeIndex d + 1) - readIndex d - n;
                               d1 = d\<lparr>alerter := alerter d @ [sint dropped]\<rparr>;
                               d2 = d1\<lparr>readIndex := (writeIndex d1 + 1) - n\<rparr>;
                               idx2 = unat (readIndex d2 mod n)
                           in (d2, idx2, buffer d2 ! idx2)
                         else (d, idx, result));
                      d4 = d3\<lparr>buffer :=
                             fst (CompareAndSwapPointer (buffer d3) idx3 None result3)\<rparr>;
                      d5 = d4\<lparr>readIndex := readIndex d4 + 1\<rparr>
                  in (case result3 of
                        None \<Rightarrow> (d5, Inl NilPointerDereference)
                      | Some r3 \<Rightarrow> (d5, Inr (Some (data r3), True))))"

subsection \<open>Sequential runs\<close>

text \<open>
  A run of one goroutine is a list of calls. \<open>step\<close> makes one call and keeps the struct
  it leaves behind (also when the call panicked: the struct is then as the panic found
  it), \<open>run\<close> makes the calls of a list in order.
\<close>

datatype 'a op = OpSet 'a | OpTryNext

fun step :: "'a ManyToOne \<Rightarrow> 'a op \<Rightarrow> 'a ManyToOne" where
  "step d (OpSet v) = fst (Set d v)"
| "step d OpTryNext = fst (TryNext d)"

definition run :: "'a ManyToOne \<Rightarrow> 'a op list \<Rightarrow> 'a ManyToOne" where
  "run d ops = foldl step d ops"

text \<open>The values handed to \<open>Set\<close> in a run, in call order.\<close>

fun written :: "'a op list \<Rightarrow> 'a list" where
  "written [] = []"
| "written (OpSet v # ops) = v # written ops"
| "written (OpTryNext # ops) = written ops"

text \<open>
  The completed writes of a run, in call order: for every \<open>Set\<close> the value it was given
  and the sequence number it stored it under, which is the write index it leaves behind.
\<close>

fun completed :: "'a ManyToOne \<Rightarrow> 'a op list \<Rightarrow> 'a bucket list" where
  "completed d [] = []"
| "completed d (OpSet v # ops) =
     \<lparr>data = v, seq = writeIndex (fst (Set d v))\<rparr> # completed (fst (Set d v)) ops"
| "completed d (OpTryNext # ops) = completed (fst (TryNext d)) ops"

text \<open>Writes with no read in between, and a number of reads in a row with their results.\<close>

fun Sets :: "'a ManyToOne \<Rightarrow> 'a list \<Rightarrow> 'a ManyToOne" where
  "Sets d [] = d"
| "Sets d (v # vs) = Sets (fst (Set d v)) vs"

fun TryNexts :: "'a ManyToOne \<Rightarrow> nat \<Rightarrow> 'a ManyToOne \<times> (panic + 'a option \<times> bool) list" where
  "TryNexts d 0 = (d, [])"
| "TryNexts d (Suc k) =
     (case TryNexts (fst (TryNext d)) k of (d', rs) \<Rightarrow> (d', snd (TryNext d) # rs))"

subsection \<open>The state of the buffer after a number of writes\<close>

text \<open>
  \<open>slot_holds N vals i s\<close>: slot \<open>i\<close> of a buffer of \<open>N\<close> slots is as the writes of the
  values \<open>vals\<close>, numbered from 0, leave it. It is nil when fewer than \<open>i + 1\<close> values were
  written, and holds otherwise the last write \<open>k\<close> with \<open>k mod N = i\<close>, under the
  sequence number \<open>k\<close>.
\<close>

definition slot_holds :: "nat \<Rightarrow> 'a list \<Rightarrow> nat \<Rightarrow> 'a bucket option \<Rightarrow> bool" where
  "slot_holds N vals i s =
     (case s of
        None \<Rightarrow> length vals \<le> i
      | Some b \<Rightarrow> \<exists>k<length vals. length vals \<le> k + N \<and> k mod N = i \<and>
                    b = \<lparr>data = vals ! k, seq = of_nat k\<rparr>)"

definition diode_inv :: "nat \<Rightarrow> 'a list \<Rightarrow> 'a ManyToOne \<Rightarrow> bool" where
  "diode_inv N vals d \<longleftrightarrow>
     0 < N \<and> N < 2 ^ 64 \<and> length vals < 2 ^ 64 \<and> length (buffer d) = N \<and>
     writeIndex d + 1 = of_nat (length vals) \<and>
     (\<forall>i<N. slot_holds N vals i (buffer d ! i))"

section \<open>Properties\<close>

subsection \<open>Unfolding the operations\<close>

lemma CompareAndSwapPointer_same:
  "CompareAndSwapPointer mem addr (mem ! addr) new = (mem[addr := new], True)"
  by (simp add: CompareAndSwapPointer_def)

lemma list_update_same: "xs ! i = x \<Longrightarrow> xs[i := x] = xs"
  by (metis list_update_id)

text \<open>One iteration of the loop of \<open>Set\<close>, with the swap resolved.\<close>

lemma Set_unfold:
  "Set d dat =
     (let wi = writeIndex d + 1; n = (of_nat (length (buffer d)) :: uint64)
      in if n = 0 then (d\<lparr>writeIndex := wi\<rparr>, Inl IntegerDivideByZero)
         else if collision (buffer d ! unat (wi mod n)) wi n
           then Set (d\<lparr>writeIndex := wi\<rparr>) dat
           else (d\<lparr>writeIndex := wi,
                   buffer := (buffer d)[unat (wi mod n) := Some \<lparr>data = dat, seq = wi\<rparr>]\<rparr>,
                 Inr ()))"
  by (subst Set.simps) (simp add: Let_def CompareAndSwapPointer_same)


lemma TryNext_buffer: "buffer (fst (TryNext d)) = buffer d"
  by (auto simp: TryNext_def Let_def CompareAndSwapPointer_def list_update_same
      split: option.splits)

lemma TryNext_writeIndex: "writeIndex (fst (TryNext d)) = writeIndex d"
  by (auto simp: TryNext_def Let_def CompareAndSwapPointer_def split: option.splits)

lemma NewManyToOne_Inr:
  "0 \<le> sint sz \<Longrightarrow> NewManyToOne sz al =
     Inr \<lparr>writeIndex = - 1, buffer = replicate (nat (sint sz)) None, readIndex = 0,
          alerter = (case al of None \<Rightarrow> [] | Some a \<Rightarrow> a)\<rparr>"
  by (simp add: NewManyToOne_def)

subsection \<open>Arithmetic of the 64-bit counters\<close>

lemma unat_of_nat64: "k < 2 ^ 64 \<Longrightarrow> unat (of_nat k :: uint64) = k"
  by (simp add: unat_of_nat)

lemma unat_mod_of_nat64:
  "N < 2 ^ 64 \<Longrightarrow> unat ((w :: uint64) mod of_nat N) = unat w mod N"
  by (simp add: unat_mod unat_of_nat64)

lemma of_nat64_neq_0: "0 < N \<Longrightarrow> N < 2 ^ 64 \<Longrightarrow> (of_nat N :: uint64) \<noteq> 0"
  by (metis unat_of_nat64 unat_0 less_numeral_extra(3))

lemma of_nat64_less: "k < 2 ^ 64 \<Longrightarrow> ((w :: uint64) < of_nat k) = (unat w < k)"
  by (simp add: word_less_nat_alt unat_of_nat64)

lemma sint_of_nat64: "k < 2 ^ 63 \<Longrightarrow> sint (of_nat k :: uint64) = int k"
proof -
  assume k: "k < 2 ^ 63"
  then have "unat (of_nat k :: uint64) = k" by (intro unat_of_nat64) simp
  then have u: "uint (of_nat k :: uint64) = int k"
    by (simp add: uint_nat)
  have "int k < 2 ^ 63" using k by (metis of_nat_less_numeral_power_cancel_iff)
  then have "signed_take_bit 63 (int k) = int k"
    by (intro signed_take_bit_int_eq_self) simp_all
  then show ?thesis by (simp add: sint_uint u)
qed

text \<open>Two sequence numbers of one slot are a multiple of the capacity apart.\<close>

lemma same_class_above: "k mod N = r mod N \<Longrightarrow> r < k \<Longrightarrow> r + N \<le> (k::nat)"
proof -
  assume a: "k mod N = r mod N" "r < k"
  then have "N dvd k - r" by (simp add: mod_eq_dvd_iff_nat)
  moreover have "0 < k - r" using a by simp
  ultimately have "N \<le> k - r" by (rule dvd_imp_le)
  then show ?thesis using a by simp
qed

lemma same_class_window:
  "k mod N = r mod N \<Longrightarrow> k \<le> r \<Longrightarrow> r < k + N \<Longrightarrow> k = (r::nat)"
  using same_class_above [of r N k] by (cases "k < r") auto

subsection \<open>The writes keep the buffer in step with the write index\<close>

lemma diode_inv_slot:
  "diode_inv N vals d \<Longrightarrow> i < N \<Longrightarrow> slot_holds N vals i (buffer d ! i)"
  by (simp add: diode_inv_def)

lemma diode_inv_n: "diode_inv N vals d \<Longrightarrow> (of_nat (length (buffer d)) :: uint64) \<noteq> 0"
  by (simp add: diode_inv_def of_nat64_neq_0)

text \<open>Under the invariant the next write meets no collision.\<close>

lemma no_collision:
  assumes inv: "diode_inv N vals d"
  shows "\<not> collision (buffer d ! (length vals mod N)) (of_nat (length vals)) (of_nat N)"
proof (cases "buffer d ! (length vals mod N)")
  case None
  then show ?thesis by (simp add: collision_def)
next
  case (Some b)
  let ?W = "length vals"
  have N: "0 < N" using inv by (simp add: diode_inv_def)
  then have "slot_holds N vals (?W mod N) (buffer d ! (?W mod N))"
    using inv by (intro diode_inv_slot) simp_all
  then obtain k where k: "k < ?W" "?W \<le> k + N" "k mod N = ?W mod N"
      "b = \<lparr>data = vals ! k, seq = of_nat k\<rparr>"
    using Some by (auto simp: slot_holds_def)
  have "k + N \<le> ?W" using k(1,3) by (intro same_class_above) simp_all
  then have "?W = k + N" using k(2) by simp
  then have "(of_nat ?W :: uint64) - of_nat N = of_nat k" by simp
  then show ?thesis using Some k(4) by (simp add: collision_def)
qed

lemma Set_inv_eq:
  assumes inv: "diode_inv N vals d"
  shows "Set d v =
     (d\<lparr>writeIndex := of_nat (length vals),
        buffer := (buffer d)[length vals mod N := Some \<lparr>data = v, seq = of_nat (length vals)\<rparr>]\<rparr>,
      Inr ())"
proof -
  have a: "length (buffer d) = N" "writeIndex d + 1 = of_nat (length vals)"
    "N < 2 ^ 64" "length vals < 2 ^ 64" "(of_nat N :: uint64) \<noteq> 0"
    using inv by (simp_all add: diode_inv_def of_nat64_neq_0)
  have idx: "unat ((of_nat (length vals) :: uint64) mod of_nat N) = length vals mod N"
    using a(3,4) by (simp add: unat_mod_of_nat64 unat_of_nat64)
  show ?thesis
    using no_collision [OF inv] a idx by (subst Set_unfold) (simp add: Let_def)
qed

lemma Set_inv:
  assumes inv: "diode_inv N vals d" and bound: "Suc (length vals) < 2 ^ 64"
  shows "diode_inv N (vals @ [v]) (fst (Set d v))"
proof -
  let ?W = "length vals"
  have a: "0 < N" "length (buffer d) = N" "N < 2 ^ 64"
    using inv by (simp_all add: diode_inv_def)
  have "slot_holds N (vals @ [v]) i
          ((buffer d)[?W mod N := Some \<lparr>data = v, seq = of_nat ?W\<rparr>] ! i)"
    if i: "i < N" for i
  proof (cases "i = ?W mod N")
    case True
    have "(buffer d)[?W mod N := Some \<lparr>data = v, seq = of_nat ?W\<rparr>] ! i =
            Some \<lparr>data = v, seq = of_nat ?W\<rparr>"
      using True i a(2) by simp
    moreover have "slot_holds N (vals @ [v]) i (Some \<lparr>data = v, seq = of_nat ?W\<rparr>)"
      using True a(1) by (auto simp: slot_holds_def intro!: exI [of _ ?W])
    ultimately show ?thesis by simp
  next
    case False
    have old: "slot_holds N vals i (buffer d ! i)"
      using inv i by (rule diode_inv_slot)
    show ?thesis
    proof (cases "buffer d ! i")
      case None
      then have "?W \<le> i" using old by (simp add: slot_holds_def)
      moreover have "?W \<noteq> i" using False i by auto
      ultimately show ?thesis using None False by (simp add: slot_holds_def)
    next
      case (Some b)
      then obtain k where k: "k < ?W" "?W \<le> k + N" "k mod N = i"
          "b = \<lparr>data = vals ! k, seq = of_nat k\<rparr>"
        using old by (auto simp: slot_holds_def)
      have "?W \<noteq> k + N" using False k(3) by auto
      then have "Suc ?W \<le> k + N" using k(2) by simp
      then show ?thesis
        using Some False k by (auto simp: slot_holds_def nth_append intro!: exI [of _ k])
    qed
  qed
  then show ?thesis
    using a bound unfolding Set_inv_eq [OF inv] by (simp add: diode_inv_def)
qed

lemma TryNext_inv: "diode_inv N vals d \<Longrightarrow> diode_inv N vals (fst (TryNext d))"
  by (simp add: diode_inv_def TryNext_buffer TryNext_writeIndex)

lemma New_inv:
  assumes "NewManyToOne sz al = Inr d" "0 < sint sz"
  shows "diode_inv (nat (sint sz)) [] d"
proof -
  have "sint sz < 2 ^ 63" using sint_lt [of sz] by simp
  then have "sint sz < int (2 ^ 64)" by simp
  then have "nat (sint sz) < 2 ^ 64" using assms(2) by (simp only: nat_less_iff)
  then show ?thesis
    using assms by (auto simp: NewManyToOne_def diode_inv_def slot_holds_def)
qed

subsection \<open>Reads under the invariant\<close>

lemma Set_inv_frame:
  "diode_inv N vals d \<Longrightarrow>
     readIndex (fst (Set d v)) = readIndex d \<and> alerter (fst (Set d v)) = alerter d"
  by (simp add: Set_inv_eq)

text \<open>What a slot under the invariant holds, read off at the index of a sequence number.\<close>

lemma slot_at:
  assumes inv: "diode_inv N vals d"
  shows "case buffer d ! (r mod N) of
           None \<Rightarrow> length vals \<le> r mod N
         | Some b \<Rightarrow> \<exists>k<length vals. length vals \<le> k + N \<and> k mod N = r mod N \<and>
                       b = \<lparr>data = vals ! k, seq = of_nat k\<rparr>"
proof -
  have "0 < N" using inv by (simp add: diode_inv_def)
  then have "slot_holds N vals (r mod N) (buffer d ! (r mod N))"
    using inv by (intro diode_inv_slot) simp_all
  then show ?thesis by (simp add: slot_holds_def)
qed

lemma slot_in_window:
  assumes inv: "diode_inv N vals d" and r: "r < length vals" "length vals \<le> r + N"
  shows "buffer d ! (r mod N) = Some \<lparr>data = vals ! r, seq = of_nat r\<rparr>"
proof (cases "buffer d ! (r mod N)")
  case None
  then have "length vals \<le> r mod N" using slot_at [OF inv, of r] by simp
  moreover have "r mod N \<le> r" by simp
  ultimately have False using r(1) by linarith
  then show ?thesis ..
next
  case (Some b)
  then obtain k where k: "k < length vals" "length vals \<le> k + N" "k mod N = r mod N"
      "b = \<lparr>data = vals ! k, seq = of_nat k\<rparr>"
    using slot_at [OF inv, of r] by auto
  have "k = r"
  proof (cases "k \<le> r")
    case True
    then show ?thesis using k(2,3) r(1) by (intro same_class_window [of k N r]) simp_all
  next
    case False
    then have "r = k" using k(1,3) r(2) by (intro same_class_window [of r N k]) simp_all
    then show ?thesis by simp
  qed
  then show ?thesis using Some k(4) by simp
qed

text \<open>A read inside the window of the last \<open>N\<close> writes: the value expected, no alert.\<close>

lemma TryNext_in_window:
  assumes inv: "diode_inv N vals d"
    and r: "unat (readIndex d) < length vals" "length vals \<le> unat (readIndex d) + N"
  shows "TryNext d = (d\<lparr>readIndex := readIndex d + 1\<rparr>,
                       Inr (Some (vals ! unat (readIndex d)), True))"
proof -
  let ?r = "unat (readIndex d)"
  have a: "length (buffer d) = N" "N < 2 ^ 64" "(of_nat N :: uint64) \<noteq> 0"
    using inv by (simp_all add: diode_inv_def of_nat64_neq_0)
  have idx: "unat (readIndex d mod of_nat N) = ?r mod N"
    using a(2) by (rule unat_mod_of_nat64)
  have slot: "buffer d ! (?r mod N) = Some \<lparr>data = vals ! ?r, seq = of_nat ?r\<rparr>"
    using inv r by (rule slot_in_window)
  have nolap: "\<not> readIndex d < of_nat ?r" by simp
  show ?thesis
    using a idx slot nolap
    by (simp add: TryNext_def Let_def CompareAndSwapPointer_def)
qed

text \<open>A read by a lapped reader: the catch-up.\<close>

lemma TryNext_lapped:
  assumes inv: "diode_inv N vals d"
    and lap: "unat (readIndex d) + N < length vals"
  shows "TryNext d =
           (d\<lparr>readIndex := of_nat (length vals - N) + 1,
              alerter := alerter d @
                [sint (of_nat (length vals - unat (readIndex d) - N) :: uint64)]\<rparr>,
            Inr (Some (vals ! (length vals - N)), True))"
proof -
  let ?r = "unat (readIndex d)" and ?W = "length vals"
  have a: "length (buffer d) = N" "N < 2 ^ 64" "(of_nat N :: uint64) \<noteq> 0" "0 < N"
      "?W < 2 ^ 64" "writeIndex d + 1 = of_nat ?W"
    using inv by (simp_all add: diode_inv_def of_nat64_neq_0)
  have idx: "unat (readIndex d mod of_nat N) = ?r mod N"
    using a(2) by (rule unat_mod_of_nat64)
  have "buffer d ! (?r mod N) \<noteq> None"
  proof
    assume "buffer d ! (?r mod N) = None"
    then have "?W \<le> ?r mod N" using slot_at [OF inv, of ?r] by simp
    moreover have "?r mod N \<le> ?r" by simp
    ultimately show False using lap by linarith
  qed
  then obtain b where b: "buffer d ! (?r mod N) = Some b" by auto
  then obtain k where k: "k < ?W" "?W \<le> k + N" "k mod N = ?r mod N"
      "b = \<lparr>data = vals ! k, seq = of_nat k\<rparr>"
    using slot_at [OF inv, of ?r] by auto
  have "?r < k" using k(2) lap by simp
  then have lapped: "readIndex d < seq b"
    using k(1,4) a(5) by (simp add: of_nat64_less)
  have dropped: "(of_nat ?W :: uint64) - readIndex d - of_nat N = of_nat (?W - ?r - N)"
  proof -
    have "(of_nat (?W - ?r - N) :: uint64) = of_nat ?W - of_nat ?r - of_nat N"
      using lap by simp
    then show ?thesis by simp
  qed
  have newr: "(of_nat ?W :: uint64) - of_nat N = of_nat (?W - N)"
    using lap by simp
  have idx2: "unat ((of_nat (?W - N) :: uint64) mod of_nat N) = (?W - N) mod N"
    using a(2,5) by (simp add: unat_mod_of_nat64 unat_of_nat64)
  have slot2: "buffer d ! ((?W - N) mod N) =
      Some \<lparr>data = vals ! (?W - N), seq = of_nat (?W - N)\<rparr>"
    using inv lap a(4) by (intro slot_in_window) simp_all
  show ?thesis
    using a(1,3,6) idx b lapped dropped newr idx2 slot2
    by (simp add: TryNext_def Let_def CompareAndSwapPointer_def)
qed

subsection \<open>Runs under the invariant\<close>

lemma diode_inv_readIndex [simp]:
  "diode_inv N vals (d\<lparr>readIndex := x\<rparr>) = diode_inv N vals d"
  by (simp add: diode_inv_def)

lemma diode_inv_alerter [simp]:
  "diode_inv N vals (d\<lparr>alerter := x\<rparr>) = diode_inv N vals d"
  by (simp add: diode_inv_def)

lemma Sets_inv:
  "diode_inv N vals d \<Longrightarrow> length vals + length vs < 2 ^ 64 \<Longrightarrow>
     diode_inv N (vals @ vs) (Sets d vs) \<and>
     readIndex (Sets d vs) = readIndex d \<and> alerter (Sets d vs) = alerter d"
proof (induction vs arbitrary: vals d)
  case Nil
  then show ?case by simp
next
  case (Cons v vs)
  have "diode_inv N (vals @ [v]) (fst (Set d v))"
    using Cons.prems by (intro Set_inv) simp_all
  then have "diode_inv N ((vals @ [v]) @ vs) (Sets (fst (Set d v)) vs) \<and>
     readIndex (Sets (fst (Set d v)) vs) = readIndex (fst (Set d v)) \<and>
     alerter (Sets (fst (Set d v)) vs) = alerter (fst (Set d v))"
    using Cons.prems by (intro Cons.IH) simp_all
  then show ?case
    using Set_inv_frame [OF Cons.prems(1), of v] by simp
qed

lemma run_Cons: "run d (x # ops) = run (step d x) ops"
  by (simp add: run_def)

lemma run_inv:
  "diode_inv N vals d \<Longrightarrow> length vals + length (written ops) < 2 ^ 64 \<Longrightarrow>
     diode_inv N (vals @ written ops) (run d ops)"
proof (induction ops arbitrary: vals d)
  case Nil
  then show ?case by (simp add: run_def)
next
  case (Cons x ops)
  show ?case
  proof (cases x)
    case (OpSet v)
    have "diode_inv N (vals @ [v]) (fst (Set d v))"
      using Cons.prems OpSet by (intro Set_inv) simp_all
    then have "diode_inv N ((vals @ [v]) @ written ops) (run (fst (Set d v)) ops)"
      using Cons.prems OpSet by (intro Cons.IH) simp_all
    then show ?thesis using OpSet by (simp add: run_Cons)
  next
    case OpTryNext
    have "diode_inv N vals (fst (TryNext d))"
      using Cons.prems(1) by (rule TryNext_inv)
    then have "diode_inv N (vals @ written ops) (run (fst (TryNext d)) ops)"
      using Cons.prems OpTryNext by (intro Cons.IH) simp_all
    then show ?thesis using OpTryNext by (simp add: run_Cons)
  qed
qed

text \<open>The completed writes of a run carry the sequence numbers in counting order.\<close>

lemma completed_eq:
  "diode_inv N vals d \<Longrightarrow> length vals + length (written ops) < 2 ^ 64 \<Longrightarrow>
     completed d ops =
       map (\<lambda>k. \<lparr>data = (vals @ written ops) ! k, seq = of_nat k\<rparr>)
         [length vals ..< length vals + length (written ops)]"
proof (induction ops arbitrary: vals d)
  case Nil
  then show ?case by simp
next
  case (Cons x ops)
  show ?case
  proof (cases x)
    case (OpSet v)
    have "diode_inv N (vals @ [v]) (fst (Set d v))"
      using Cons.prems OpSet by (intro Set_inv) simp_all
    then have "completed (fst (Set d v)) ops =
       map (\<lambda>k. \<lparr>data = ((vals @ [v]) @ written ops) ! k, seq = of_nat k\<rparr>)
         [length (vals @ [v]) ..< length (vals @ [v]) + length (written ops)]"
      using Cons.prems OpSet by (intro Cons.IH) simp_all
    moreover have "writeIndex (fst (Set d v)) = of_nat (length vals)"
      by (simp add: Set_inv_eq [OF Cons.prems(1)])
    ultimately show ?thesis
      using OpSet by (simp add: upt_conv_Cons del: upt_Suc)
  next
    case OpTryNext
    have "diode_inv N vals (fst (TryNext d))"
      using Cons.prems(1) by (rule TryNext_inv)
    then have "completed (fst (TryNext d)) ops =
       map (\<lambda>k. \<lparr>data = (vals @ written ops) ! k, seq = of_nat k\<rparr>)
         [length vals ..< length vals + length (written ops)]"
      using Cons.prems OpTryNext by (intro Cons.IH) simp_all
    then show ?thesis using OpTryNext by simp
  qed
qed

text \<open>Reads in a row inside the window of the last \<open>N\<close> writes.\<close>

lemma TryNexts_in_window:
  "diode_inv N vals d \<Longrightarrow> unat (readIndex d) + k \<le> length vals \<Longrightarrow>
   length vals \<le> unat (readIndex d) + N \<Longrightarrow>
     TryNexts d k =
       (d\<lparr>readIndex := readIndex d + of_nat k\<rparr>,
        map (\<lambda>v. Inr (Some v, True)) (take k (drop (unat (readIndex d)) vals)))"
proof (induction k arbitrary: d)
  case 0
  then show ?case by simp
next
  case (Suc k)
  let ?r = "unat (readIndex d)"
  let ?d' = "d\<lparr>readIndex := readIndex d + 1\<rparr>"
  have r: "?r < length vals" using Suc.prems(2) by simp
  have one: "TryNext d = (?d', Inr (Some (vals ! ?r), True))"
    using Suc.prems(1) r Suc.prems(3) by (rule TryNext_in_window)
  have "length vals < 2 ^ 64" using Suc.prems(1) by (simp add: diode_inv_def)
  then have "?r + 1 < 2 ^ 64" using r by simp
  then have r': "unat (readIndex d + 1) = Suc ?r"
    by (simp add: unat_add_lem [THEN iffD1])
  have "TryNexts ?d' k =
       (?d'\<lparr>readIndex := readIndex ?d' + of_nat k\<rparr>,
        map (\<lambda>v. Inr (Some v, True)) (take k (drop (unat (readIndex ?d')) vals)))"
    using Suc.prems by (intro Suc.IH) (simp_all add: r')
  then show ?case
    using one r r' by (simp add: Cons_nth_drop_Suc [symmetric] add.assoc)
qed

subsection \<open>The log of completed writes and the alerts of a read\<close>

text \<open>The sequence numbers of one slot among the first \<open>W\<close> writes.\<close>

lemma class_none: "W \<le> i \<Longrightarrow> filter (\<lambda>k. k mod N = i) [0..<W] = []"
proof -
  assume W: "W \<le> i"
  have "k mod N \<noteq> i" if "k < W" for k
  proof -
    have "k mod N \<le> k" by simp
    then show ?thesis using that W by linarith
  qed
  then show ?thesis by (simp add: filter_empty_conv)
qed

lemma class_last:
  assumes "k < W" "W \<le> k + N" "k mod N = i"
  shows "filter (\<lambda>j. j mod N = i) [0..<W] = filter (\<lambda>j. j mod N = i) [0..<k] @ [k]"
proof -
  have "j mod N \<noteq> i" if j: "Suc k \<le> j" "j < W" for j
  proof
    assume "j mod N = i"
    then have "k + N \<le> j" using assms(3) j(1) by (intro same_class_above) simp_all
    then show False using j(2) assms(2) by simp
  qed
  then have tail: "filter (\<lambda>j. j mod N = i) [Suc k..<W] = []"
    by (simp add: filter_empty_conv)
  have "[0..<W] = [0..<k] @ [k..<W]"
    using assms(1) upt_add_eq_append [of 0 k "W - k"] by simp
  also have "[k..<W] = k # [Suc k..<W]"
    using assms(1) by (rule upt_conv_Cons)
  finally show ?thesis using tail assms(3) by simp
qed

lemma filter_seq_log:
  assumes "W < 2 ^ 64"
  shows "filter (\<lambda>c. unat (seq c) mod N = i)
           (map (\<lambda>k. \<lparr>data = f k, seq = (of_nat k :: uint64)\<rparr>) [0..<W]) =
         map (\<lambda>k. \<lparr>data = f k, seq = of_nat k\<rparr>) (filter (\<lambda>k. k mod N = i) [0..<W])"
proof -
  have "unat (of_nat k :: uint64) = k" if "k < W" for k
    using that assms by (intro unat_of_nat64) simp
  then have "filter ((\<lambda>c. unat (seq c) mod N = i) \<circ> (\<lambda>k. \<lparr>data = f k, seq = (of_nat k :: uint64)\<rparr>)) [0..<W]
      = filter (\<lambda>k. k mod N = i) [0..<W]"
    by (intro filter_cong) simp_all
  then show ?thesis by (simp add: filter_map)
qed

text \<open>When \<open>TryNext\<close> alerts: only on the catch-up path, once, with the drop count.\<close>

lemma TryNext_alerter:
  "alerter (fst (TryNext d)) = alerter d \<or>
   (\<exists>b. buffer d ! unat (readIndex d mod of_nat (length (buffer d))) = Some b \<and>
        readIndex d < seq b \<and>
        alerter (fst (TryNext d)) = alerter d @
          [sint (writeIndex d + 1 - readIndex d - of_nat (length (buffer d)))])"
  by (auto simp: TryNext_def Let_def split: option.splits)

lemma dropped_eq:
  assumes inv: "diode_inv N vals d"
    and b: "buffer d ! unat (readIndex d mod of_nat (length (buffer d))) = Some b"
      "readIndex d < seq b"
  shows "unat (readIndex d) + N < length vals \<and>
         writeIndex d + 1 - readIndex d - of_nat (length (buffer d)) =
           of_nat (length vals - unat (readIndex d) - N)"
proof -
  let ?r = "unat (readIndex d)" and ?W = "length vals"
  have a: "length (buffer d) = N" "N < 2 ^ 64" "?W < 2 ^ 64" "writeIndex d + 1 = of_nat ?W"
    using inv by (simp_all add: diode_inv_def)
  have idx: "unat (readIndex d mod of_nat N) = ?r mod N"
    using a(2) by (rule unat_mod_of_nat64)
  obtain k where k: "k < ?W" "?W \<le> k + N" "k mod N = ?r mod N"
      "b = \<lparr>data = vals ! k, seq = of_nat k\<rparr>"
    using slot_at [OF inv, of ?r] b(1) a(1) idx by auto
  have "?r < k" using b(2) k(1,4) a(3) by (simp add: of_nat64_less)
  then have "?r + N \<le> k" using k(3) by (intro same_class_above) simp_all
  then have lap: "?r + N < ?W" using k(1) by simp
  have "(of_nat (?W - ?r - N) :: uint64) = of_nat ?W - of_nat ?r - of_nat N"
    using lap by simp
  then show ?thesis using lap a(1,4) by simp
qed

subsection \<open>The fresh engine\<close>

lemma NewManyToOne_InrD:
  assumes "NewManyToOne sz al = Inr d0"
  shows "0 \<le> sint sz \<and>
         d0 = \<lparr>writeIndex = - 1, buffer = replicate (nat (sint sz)) None, readIndex = 0,
               alerter = (case al of None \<Rightarrow> [] | Some a \<Rightarrow> a)\<rparr>"
proof (cases "sint sz < 0")
  case True
  then have "NewManyToOne sz al = (Inl MakesliceLenOutOfRange :: panic + 'a ManyToOne)"
    by (simp add: NewManyToOne_def)
  then show ?thesis using assms by simp
next
  case False
  then have "0 \<le> sint sz" by simp
  then show ?thesis using NewManyToOne_Inr [of sz al, where ?'a = 'a] assms by simp
qed


lemma unat_max64: "unat (- 1 :: uint64) = 2 ^ 64 - 1"
  by (simp add: unsigned_minus_1_eq_mask mask_eq_exp_minus_1)

section \<open>The specified behaviour\<close>

text \<open>
  C1. Overrun accounting: on a fresh engine of capacity \<open>N \<ge> 1\<close>, after \<open>m > N\<close> calls of
  \<open>Set\<close> with no read in between (\<open>m < 2^63\<close>, the range of the counters and of the
  \<open>int\<close> handed to the alerter), the writes have not alerted, and one \<open>TryNext\<close> returns
  \<open>ok = true\<close> with the value of write number \<open>m - N\<close> (counted from 0), which the buffer
  holds under the sequence number \<open>m - N\<close>; during that read the alerter is called
  exactly once, with \<open>m - N\<close>.
\<close>

theorem overrun_accounting:
  assumes "NewManyToOne sz al = Inr d0" and "0 < sint sz"
    and "nat (sint sz) < length vs" and "length vs < 2 ^ 63"
  shows "alerter (Sets d0 vs) = alerter d0 \<and>
         TryNext (Sets d0 vs) =
           ((Sets d0 vs)\<lparr>readIndex := of_nat (length vs - nat (sint sz)) + 1,
               alerter := alerter d0 @ [int (length vs - nat (sint sz))]\<rparr>,
            Inr (Some (vs ! (length vs - nat (sint sz))), True)) \<and>
         buffer (Sets d0 vs) ! ((length vs - nat (sint sz)) mod nat (sint sz)) =
           Some \<lparr>data = vs ! (length vs - nat (sint sz)),
                 seq = of_nat (length vs - nat (sint sz))\<rparr>"
proof -
  let ?N = "nat (sint sz)" and ?d = "Sets d0 vs"
  have inv0: "diode_inv ?N [] d0" using assms(1,2) by (rule New_inv)
  have r0: "readIndex d0 = 0" using assms(1,2) by (auto simp: NewManyToOne_def)
  have "length vs < 2 ^ 64" using assms(4) by simp
  then have "diode_inv ?N ([] @ vs) ?d \<and> readIndex ?d = readIndex d0 \<and>
      alerter ?d = alerter d0"
    using inv0 by (intro Sets_inv) simp_all
  then have inv: "diode_inv ?N vs ?d" and r: "readIndex ?d = 0" and al: "alerter ?d = alerter d0"
    using r0 by simp_all
  have lap: "unat (readIndex ?d) + ?N < length vs" using r assms(3) by simp
  have "length vs - ?N < 2 ^ 63" using assms(4) by simp
  then have dropped: "sint (of_nat (length vs - ?N) :: uint64) = int (length vs - ?N)"
    by (rule sint_of_nat64)
  have "0 < ?N" using assms(2) by simp
  then have "buffer ?d ! ((length vs - ?N) mod ?N) =
      Some \<lparr>data = vs ! (length vs - ?N), seq = of_nat (length vs - ?N)\<rparr>"
    using inv assms(3) by (intro slot_in_window) simp_all
  then show ?thesis
    using TryNext_lapped [OF inv lap] r al dropped by simp
qed

theorem overrun_accounting_witness:
  "alerter (Sets \<lparr>writeIndex = - 1, buffer = [None, None, None, None], readIndex = 0,
               alerter = []\<rparr> [10, 11, 12, 13, 14, 15 :: nat]) = [] \<and>
   TryNext (Sets \<lparr>writeIndex = - 1, buffer = [None, None, None, None], readIndex = 0,
               alerter = []\<rparr> [10, 11, 12, 13, 14, 15 :: nat]) =
     ((Sets \<lparr>writeIndex = - 1, buffer = [None, None, None, None], readIndex = 0,
               alerter = []\<rparr> [10, 11, 12, 13, 14, 15 :: nat])
        \<lparr>readIndex := 3, alerter := [2]\<rparr>,
      Inr (Some 12, True))"
proof -
  let ?fresh = "\<lparr>writeIndex = - 1, buffer = [None, None, None, None :: nat bucket option],
              readIndex = 0, alerter = []\<rparr>"
  have h1: "NewManyToOne 4 None = Inr ?fresh"
    by (simp add: NewManyToOne_def eval_nat_numeral)
  have h2: "0 < sint (4 :: 64 word)" by simp
  have h3: "nat (sint (4 :: 64 word)) < length [10, 11, 12, 13, 14, 15 :: nat]" by simp
  have h4: "length [10, 11, 12, 13, 14, 15 :: nat] < 2 ^ 63" by simp
  show ?thesis
    using overrun_accounting [OF h1 h2 h3 h4] by simp
qed

text \<open>
  C2 on the code. Capacity 4, six writes of the values 0 to 5, then five reads: the
  first four return 2, 3, 4 and 5 (the first after a catch-up that reports 2 dropped
  values), and the fifth, with nothing new written, returns the value 2 a second time
  with \<open>ok = true\<close> and moves the read index on to 7.
\<close>

theorem stale_value_delivered_again:
  "NewManyToOne 4 None =
     Inr \<lparr>writeIndex = - 1, buffer = [None, None, None, None :: nat bucket option],
          readIndex = 0, alerter = []\<rparr> \<and>
   snd (TryNexts (Sets \<lparr>writeIndex = - 1, buffer = [None, None, None, None], readIndex = 0,
                        alerter = []\<rparr> [0, 1, 2, 3, 4, 5 :: nat]) 5) =
     [Inr (Some 2, True), Inr (Some 3, True), Inr (Some 4, True), Inr (Some 5, True),
      Inr (Some 2, True)] \<and>
   readIndex (fst (TryNexts (Sets \<lparr>writeIndex = - 1, buffer = [None, None, None, None],
                        readIndex = 0, alerter = []\<rparr> [0, 1, 2, 3, 4, 5 :: nat]) 5)) = 7 \<and>
   alerter (fst (TryNexts (Sets \<lparr>writeIndex = - 1, buffer = [None, None, None, None],
                        readIndex = 0, alerter = []\<rparr> [0, 1, 2, 3, 4, 5 :: nat]) 5)) = [2]"
  by code_simp

text \<open>
  C3. FIFO under capacity: on a fresh engine of capacity \<open>N\<close>, after \<open>k \<le> N\<close> writes with
  no read in between, \<open>k\<close> reads in a row return exactly the written values, in write
  order, each with \<open>ok = true\<close>, and neither the writes nor the reads call the alerter.
\<close>

theorem fifo_under_capacity:
  assumes "NewManyToOne sz al = Inr d0" and "length vs \<le> nat (sint sz)"
  shows "TryNexts (Sets d0 vs) (length vs) =
           ((Sets d0 vs)\<lparr>readIndex := of_nat (length vs)\<rparr>,
            map (\<lambda>v. Inr (Some v, True)) vs) \<and>
         alerter (fst (TryNexts (Sets d0 vs) (length vs))) = alerter d0"
proof (cases "vs = []")
  case True
  have "readIndex d0 = 0" using assms(1) by (auto simp: NewManyToOne_def split: if_splits)
  then show ?thesis using True by simp
next
  case False
  let ?N = "nat (sint sz)" and ?d = "Sets d0 vs"
  have pos: "0 < sint sz" using False assms(2) by (cases vs) auto
  have inv0: "diode_inv ?N [] d0" using assms(1) pos by (rule New_inv)
  have r0: "readIndex d0 = 0" using assms(1) pos by (auto simp: NewManyToOne_def)
  have "?N < 2 ^ 64" using inv0 by (simp add: diode_inv_def)
  then have "length vs < 2 ^ 64" using assms(2) by simp
  then have "diode_inv ?N ([] @ vs) ?d \<and> readIndex ?d = readIndex d0 \<and>
      alerter ?d = alerter d0"
    using inv0 by (intro Sets_inv) simp_all
  then have inv: "diode_inv ?N vs ?d" and r: "readIndex ?d = 0" and al: "alerter ?d = alerter d0"
    using r0 by simp_all
  have "TryNexts ?d (length vs) =
       (?d\<lparr>readIndex := readIndex ?d + of_nat (length vs)\<rparr>,
        map (\<lambda>v. Inr (Some v, True)) (take (length vs) (drop (unat (readIndex ?d)) vs)))"
    using inv assms(2) r by (intro TryNexts_in_window) simp_all
  then show ?thesis using r al by simp
qed

theorem fifo_under_capacity_witness:
  "TryNexts (Sets \<lparr>writeIndex = - 1, buffer = [None, None, None, None], readIndex = 0,
               alerter = []\<rparr> [10, 11, 12 :: nat]) 3 =
     ((Sets \<lparr>writeIndex = - 1, buffer = [None, None, None, None], readIndex = 0,
               alerter = []\<rparr> [10, 11, 12 :: nat])\<lparr>readIndex := 3\<rparr>,
      [Inr (Some 10, True), Inr (Some 11, True), Inr (Some 12, True)]) \<and>
   alerter (fst (TryNexts (Sets \<lparr>writeIndex = - 1, buffer = [None, None, None, None],
               readIndex = 0, alerter = []\<rparr> [10, 11, 12 :: nat]) 3)) = []"
proof -
  let ?fresh = "\<lparr>writeIndex = - 1, buffer = [None, None, None, None :: nat bucket option],
              readIndex = 0, alerter = []\<rparr>"
  have h1: "NewManyToOne 4 None = Inr ?fresh"
    by (simp add: NewManyToOne_def eval_nat_numeral)
  have h2: "length [10, 11, 12 :: nat] \<le> nat (sint (4 :: 64 word))" by simp
  have "?thesis \<longleftrightarrow>
      TryNexts (Sets ?fresh [10, 11, 12]) (length [10, 11, 12 :: nat]) =
        ((Sets ?fresh [10, 11, 12])\<lparr>readIndex := of_nat (length [10, 11, 12 :: nat])\<rparr>,
         map (\<lambda>v. Inr (Some v, True)) [10, 11, 12]) \<and>
      alerter (fst (TryNexts (Sets ?fresh [10, 11, 12]) (length [10, 11, 12 :: nat]))) =
        alerter ?fresh"
    by (simp del: Sets.simps TryNexts.simps add: numeral_3_eq_3)
  with fifo_under_capacity [OF h1 h2] show ?thesis by blast
qed

text \<open>
  C4. Slot invariant: after any run of \<open>Set\<close> and \<open>TryNext\<close> calls on a fresh engine of
  capacity \<open>N \<ge> 1\<close> (with fewer than \<open>2^64\<close> writes, the range of the write index), every
  slot \<open>i < N\<close> is nil, and then no completed write has a sequence number that is \<open>i\<close>
  modulo \<open>N\<close>, or it holds the value and sequence number of the most recent completed
  write whose sequence number is \<open>i\<close> modulo \<open>N\<close>; the sequence number stored is then
  congruent to \<open>i\<close> and is the largest such one handed out so far.
\<close>

theorem slot_invariant:
  assumes "NewManyToOne sz al = Inr d0" and "0 < sint sz"
    and "length (written ops) < 2 ^ 64" and "i < nat (sint sz)"
  shows "(buffer (run d0 ops) ! i = None \<and>
          filter (\<lambda>c. unat (seq c) mod nat (sint sz) = i) (completed d0 ops) = []) \<or>
         (\<exists>b. buffer (run d0 ops) ! i = Some b \<and>
              unat (seq b) mod nat (sint sz) = i \<and>
              b \<in> set (completed d0 ops) \<and>
              b = last (filter (\<lambda>c. unat (seq c) mod nat (sint sz) = i) (completed d0 ops)) \<and>
              (\<forall>c\<in>set (completed d0 ops).
                 unat (seq c) mod nat (sint sz) = i \<longrightarrow> seq c \<le> seq b))"
proof -
  let ?N = "nat (sint sz)" and ?vals = "written ops" and ?d = "run d0 ops"
  let ?W = "length ?vals"
  let ?f = "\<lambda>k. \<lparr>data = ?vals ! k, seq = (of_nat k :: uint64)\<rparr>"
  let ?P = "\<lambda>c :: 'a bucket. unat (seq c) mod ?N = i"
  have inv0: "diode_inv ?N [] d0" using assms(1,2) by (rule New_inv)
  have "diode_inv ?N ([] @ ?vals) ?d"
    using inv0 assms(3) by (intro run_inv) simp_all
  then have inv: "diode_inv ?N ?vals ?d" by simp
  have comp: "completed d0 ops = map ?f [0..<?W]"
    using completed_eq [OF inv0, of ops] assms(3) by simp
  have log: "filter ?P (completed d0 ops) = map ?f (filter (\<lambda>k. k mod ?N = i) [0..<?W])"
    unfolding comp using assms(3) by (rule filter_seq_log)
  have slot: "slot_holds ?N ?vals i (buffer ?d ! i)"
    using inv assms(4) by (rule diode_inv_slot)
  show ?thesis
  proof (cases "buffer ?d ! i")
    case None
    then have "?W \<le> i" using slot by (simp add: slot_holds_def)
    then have "filter (\<lambda>k. k mod ?N = i) [0..<?W] = []" by (rule class_none)
    then show ?thesis using None log by simp
  next
    case (Some b)
    then obtain k where k: "k < ?W" "?W \<le> k + ?N" "k mod ?N = i" "b = ?f k"
      using slot by (auto simp: slot_holds_def)
    have uk: "unat (of_nat k :: uint64) = k"
      using k(1) assms(3) by (intro unat_of_nat64) simp
    have "filter (\<lambda>j. j mod ?N = i) [0..<?W] = filter (\<lambda>j. j mod ?N = i) [0..<k] @ [k]"
      using k(1,2,3) by (rule class_last)
    then have last: "b = last (filter ?P (completed d0 ops))"
      using log k(4) by simp
    have mem: "b \<in> set (completed d0 ops)"
      unfolding comp using k(1,4) by auto
    have cong: "unat (seq b) mod ?N = i" using k(3,4) uk by simp
    have "seq c \<le> seq b" if c: "c \<in> set (completed d0 ops)" "unat (seq c) mod ?N = i" for c
    proof -
      obtain j where j: "j < ?W" "c = ?f j" using c(1) unfolding comp by auto
      have uj: "unat (of_nat j :: uint64) = j"
        using j(1) assms(3) by (intro unat_of_nat64) simp
      have "j \<le> k"
      proof (rule ccontr)
        assume "\<not> j \<le> k"
        then have "k + ?N \<le> j" using c(2) j(2) uj k(3) by (intro same_class_above) simp_all
        then show False using j(1) k(2) by simp
      qed
      then show ?thesis using j(2) k(4) uj uk by (simp add: word_le_nat_alt)
    qed
    then show ?thesis using Some last mem cong by blast
  qed
qed

theorem slot_invariant_witness:
  "((buffer (run \<lparr>writeIndex = - 1, buffer = [None, None], readIndex = 0, alerter = []\<rparr>
        [OpSet 10, OpSet 11, OpTryNext, OpSet (12 :: nat)]) ! 0 = None \<and>
     filter (\<lambda>c. unat (seq c) mod nat (sint (2 :: 64 word)) = 0)
       (completed \<lparr>writeIndex = - 1, buffer = [None, None], readIndex = 0, alerter = []\<rparr>
          [OpSet 10, OpSet 11, OpTryNext, OpSet (12 :: nat)]) = []) \<or>
    (\<exists>b. buffer (run \<lparr>writeIndex = - 1, buffer = [None, None], readIndex = 0, alerter = []\<rparr>
             [OpSet 10, OpSet 11, OpTryNext, OpSet (12 :: nat)]) ! 0 = Some b \<and>
         unat (seq b) mod nat (sint (2 :: 64 word)) = 0 \<and>
         b \<in> set (completed \<lparr>writeIndex = - 1, buffer = [None, None], readIndex = 0, alerter = []\<rparr>
                    [OpSet 10, OpSet 11, OpTryNext, OpSet (12 :: nat)]) \<and>
         b = last (filter (\<lambda>c. unat (seq c) mod nat (sint (2 :: 64 word)) = 0)
               (completed \<lparr>writeIndex = - 1, buffer = [None, None], readIndex = 0, alerter = []\<rparr>
                  [OpSet 10, OpSet 11, OpTryNext, OpSet (12 :: nat)])) \<and>
         (\<forall>c\<in>set (completed \<lparr>writeIndex = - 1, buffer = [None, None], readIndex = 0,
                              alerter = []\<rparr>
                     [OpSet 10, OpSet 11, OpTryNext, OpSet (12 :: nat)]).
            unat (seq c) mod nat (sint (2 :: 64 word)) = 0 \<longrightarrow> seq c \<le> seq b))) \<and>
   buffer (run \<lparr>writeIndex = - 1, buffer = [None, None], readIndex = 0, alerter = []\<rparr>
        [OpSet 10, OpSet 11, OpTryNext, OpSet (12 :: nat)]) ! 0 = Some \<lparr>data = 12, seq = 2\<rparr>"
proof -
  let ?fresh = "\<lparr>writeIndex = - 1, buffer = [None, None :: nat bucket option],
              readIndex = 0, alerter = []\<rparr>"
  let ?ops = "[OpSet 10, OpSet 11, OpTryNext, OpSet (12 :: nat)]"
  have h1: "NewManyToOne 2 None = Inr ?fresh"
    by (simp add: NewManyToOne_def eval_nat_numeral)
  have h2: "0 < sint (2 :: 64 word)" by simp
  have h3: "length (written ?ops) < 2 ^ 64" by simp
  have h4: "0 < nat (sint (2 :: 64 word))" by simp
  have v: "buffer (run ?fresh ?ops) ! 0 = Some \<lparr>data = 12, seq = 2\<rparr>"
    by code_simp
  show ?thesis
    using slot_invariant [OF h1 h2 h3 h4] v by (intro conjI)
qed




text \<open>
  C6. Non-negative drop count: in every state reached by a run of \<open>Set\<close> and \<open>TryNext\<close>
  calls on a fresh engine of capacity \<open>N \<ge> 1\<close> (with fewer than \<open>2^63\<close> writes, so that
  the count fits the signed \<open>int\<close>), a \<open>TryNext\<close> either does not call the alerter, or
  calls it once with \<open>int((writeIndex + 1) - readIndex - N)\<close>, and that integer is not
  negative.
\<close>

theorem drop_count_nonneg:
  assumes "NewManyToOne sz al = Inr d0" and "0 < sint sz"
    and "length (written ops) < 2 ^ 63" and "d = run d0 ops"
  shows "alerter (fst (TryNext d)) = alerter d \<or>
         (alerter (fst (TryNext d)) = alerter d @
            [sint (writeIndex d + 1 - readIndex d - of_nat (length (buffer d)))] \<and>
          0 \<le> sint (writeIndex d + 1 - readIndex d - of_nat (length (buffer d))))"
proof -
  let ?N = "nat (sint sz)" and ?vals = "written ops"
  let ?dropped = "writeIndex d + 1 - readIndex d - of_nat (length (buffer d))"
  have inv0: "diode_inv ?N [] d0" using assms(1,2) by (rule New_inv)
  have "length ?vals < 2 ^ 64" using assms(3) by simp
  then have "diode_inv ?N ([] @ ?vals) (run d0 ops)"
    using inv0 by (intro run_inv) simp_all
  then have inv: "diode_inv ?N ?vals d" using assms(4) by simp
  consider "alerter (fst (TryNext d)) = alerter d"
    | b where "buffer d ! unat (readIndex d mod of_nat (length (buffer d))) = Some b"
        "readIndex d < seq b" "alerter (fst (TryNext d)) = alerter d @ [sint ?dropped]"
    using TryNext_alerter [of d] by blast
  then show ?thesis
  proof cases
    case 1
    then show ?thesis by simp
  next
    case 2
    have eq: "?dropped = of_nat (length ?vals - unat (readIndex d) - ?N)"
      using dropped_eq [OF inv 2(1,2)] by simp
    have "length ?vals - unat (readIndex d) - ?N < 2 ^ 63" using assms(3) by simp
    then have "sint (of_nat (length ?vals - unat (readIndex d) - ?N) :: uint64) =
        int (length ?vals - unat (readIndex d) - ?N)"
      by (rule sint_of_nat64)
    then have "0 \<le> sint ?dropped" unfolding eq by simp
    then show ?thesis using 2(3) by simp
  qed
qed

theorem drop_count_nonneg_witness:
  "alerter (fst (TryNext (run \<lparr>writeIndex = - 1, buffer = [None, None], readIndex = 0,
                               alerter = []\<rparr>
                           [OpSet 10, OpSet 11, OpTryNext, OpSet 12, OpSet 13, OpSet (14 :: nat)]))) =
     alerter (run \<lparr>writeIndex = - 1, buffer = [None, None], readIndex = 0, alerter = []\<rparr>
                [OpSet 10, OpSet 11, OpTryNext, OpSet 12, OpSet 13, OpSet (14 :: nat)]) @ [2] \<and>
   (0 :: int) \<le> 2"
proof -
  let ?fresh = "\<lparr>writeIndex = - 1, buffer = [None, None :: nat bucket option],
              readIndex = 0, alerter = []\<rparr>"
  let ?ops = "[OpSet 10, OpSet 11, OpTryNext, OpSet 12, OpSet 13, OpSet (14 :: nat)]"
  let ?d = "run ?fresh ?ops"
  have h1: "NewManyToOne 2 None = Inr ?fresh"
    by (simp add: NewManyToOne_def eval_nat_numeral)
  have h2: "0 < sint (2 :: 64 word)" by simp
  have h3: "length (written ?ops) < 2 ^ 63" by simp
  have a1: "alerter (fst (TryNext ?d)) = [2]"
    by code_simp
  have a2: "alerter ?d = []"
    by code_simp
  have "alerter (fst (TryNext ?d)) = alerter ?d \<or>
         (alerter (fst (TryNext ?d)) = alerter ?d @
            [sint (writeIndex ?d + 1 - readIndex ?d - of_nat (length (buffer ?d)))] \<and>
          0 \<le> sint (writeIndex ?d + 1 - readIndex ?d - of_nat (length (buffer ?d))))"
    using h1 h2 h3 refl by (rule drop_count_nonneg)
  then show ?thesis
    unfolding a1 a2 by simp
qed

text \<open>
  C7. Empty read: when the buffer has at least one slot and the slot at
  \<open>readIndex mod N\<close> is nil, \<open>TryNext\<close> returns no value with \<open>ok = false\<close> and leaves
  the whole struct, the read index included, as it was. This is so in particular for
  a read of a freshly constructed engine of positive capacity.
\<close>

theorem empty_read:
  "((of_nat (length (buffer d)) :: uint64) \<noteq> 0 \<and>
    buffer d ! unat (readIndex d mod of_nat (length (buffer d))) = None
      \<longrightarrow> TryNext d = (d, Inr (None, False))) \<and>
   (NewManyToOne sz al = Inr d0 \<and> 0 < sint sz \<longrightarrow> TryNext d0 = (d0, Inr (None, False)))"
proof (intro conjI impI)
  assume "(of_nat (length (buffer d)) :: uint64) \<noteq> 0 \<and>
    buffer d ! unat (readIndex d mod of_nat (length (buffer d))) = None"
  then show "TryNext d = (d, Inr (None, False))"
    by (simp add: TryNext_def)
next
  assume a: "NewManyToOne sz al = Inr d0 \<and> 0 < sint sz"
  then have inv: "diode_inv (nat (sint sz)) [] d0" by (intro New_inv [of sz al]) simp_all
  then have n: "(of_nat (length (buffer d0)) :: uint64) \<noteq> 0" by (rule diode_inv_n)
  have "buffer d0 ! (unat (readIndex d0) mod nat (sint sz)) = None"
    using slot_at [OF inv, of "unat (readIndex d0)"]
    by (cases "buffer d0 ! (unat (readIndex d0) mod nat (sint sz))") auto
  moreover have "unat (readIndex d0 mod of_nat (length (buffer d0))) =
      unat (readIndex d0) mod nat (sint sz)"
  proof -
    have len: "length (buffer d0) = nat (sint sz)" "nat (sint sz) < 2 ^ 64"
      using inv by (simp_all add: diode_inv_def)
    show ?thesis unfolding len(1) using len(2) by (rule unat_mod_of_nat64)
  qed
  ultimately show "TryNext d0 = (d0, Inr (None, False))"
    using n by (simp add: TryNext_def)
qed

theorem empty_read_witness:
  "TryNext \<lparr>writeIndex = 0, buffer = [Some \<lparr>data = 7::nat, seq = 0\<rparr>, None, None],
            readIndex = 1, alerter = []\<rparr> =
     (\<lparr>writeIndex = 0, buffer = [Some \<lparr>data = 7, seq = 0\<rparr>, None, None],
       readIndex = 1, alerter = []\<rparr>, Inr (None, False)) \<and>
   TryNext \<lparr>writeIndex = - 1, buffer = [None, None, None :: nat bucket option],
            readIndex = 0, alerter = []\<rparr> =
     (\<lparr>writeIndex = - 1, buffer = [None, None, None], readIndex = 0, alerter = []\<rparr>,
      Inr (None, False))"
  using empty_read [of "\<lparr>writeIndex = 0, buffer = [Some \<lparr>data = 7::nat, seq = 0\<rparr>, None, None],
            readIndex = 1, alerter = []\<rparr>" 3 None
            "\<lparr>writeIndex = - 1, buffer = [None, None, None :: nat bucket option],
            readIndex = 0, alerter = []\<rparr>"]
  by (simp add: NewManyToOne_def numeral_3_eq_3)

text \<open>
  C8. Write-cursor initialization: the write index of a freshly constructed engine is the
  largest uint64 (the complement of zero, zero minus one), so that the increment of the
  first \<open>Set\<close> wraps to sequence number 0; and in any run on a fresh engine of capacity
  \<open>N \<ge> 1\<close> with fewer than \<open>2^64\<close> writes, the completed writes carry, in call order, the
  sequence numbers 0, 1, 2, ...: the \<open>k\<close>-th write is stored under \<open>k - 1\<close>.
\<close>

theorem write_cursor_initialization:
  assumes "NewManyToOne sz al = Inr d0"
  shows "writeIndex d0 = 0 - 1 \<and> unat (writeIndex d0) = 2 ^ 64 - 1 \<and>
         writeIndex d0 + 1 = 0 \<and>
         (0 < sint sz \<longrightarrow> writeIndex (fst (Set d0 v)) = 0) \<and>
         (0 < sint sz \<and> length (written ops) < 2 ^ 64 \<longrightarrow>
            completed d0 ops =
              map (\<lambda>k. \<lparr>data = written ops ! k, seq = of_nat k\<rparr>) [0..<length (written ops)])"
proof (intro conjI impI)
  have m: "writeIndex d0 = - 1"
    using NewManyToOne_InrD [OF assms] by simp
  then show "writeIndex d0 = 0 - 1" by simp
  show "unat (writeIndex d0) = 2 ^ 64 - 1" unfolding m by (rule unat_max64)
  show "writeIndex d0 + 1 = 0" unfolding m by simp
next
  assume "0 < sint sz"
  with assms have inv0: "diode_inv (nat (sint sz)) [] d0" by (rule New_inv)
  show "writeIndex (fst (Set d0 v)) = 0"
    by (simp add: Set_inv_eq [OF inv0])
next
  assume a: "0 < sint sz \<and> length (written ops) < 2 ^ 64"
  with assms have inv0: "diode_inv (nat (sint sz)) [] d0" by (intro New_inv) simp_all
  show "completed d0 ops =
      map (\<lambda>k. \<lparr>data = written ops ! k, seq = of_nat k\<rparr>) [0..<length (written ops)]"
    using completed_eq [OF inv0, of ops] a by simp
qed

theorem write_cursor_initialization_witness:
  "writeIndex \<lparr>writeIndex = - 1, buffer = [None, None :: nat bucket option], readIndex = 0,
              alerter = []\<rparr> = 0 - 1 \<and>
   writeIndex (fst (Set \<lparr>writeIndex = - 1, buffer = [None, None], readIndex = 0,
                         alerter = []\<rparr> (10 :: nat))) = 0 \<and>
   completed \<lparr>writeIndex = - 1, buffer = [None, None], readIndex = 0, alerter = []\<rparr>
     [OpSet 10, OpSet 11, OpTryNext, OpSet (12 :: nat)] =
     [\<lparr>data = 10, seq = 0\<rparr>, \<lparr>data = 11, seq = 1\<rparr>, \<lparr>data = 12, seq = 2\<rparr>]"
proof -
  let ?fresh = "\<lparr>writeIndex = - 1, buffer = [None, None :: nat bucket option],
              readIndex = 0, alerter = []\<rparr>"
  let ?ops = "[OpSet 10, OpSet 11, OpTryNext, OpSet (12 :: nat)]"
  have h1: "NewManyToOne 2 None = Inr ?fresh"
    by (simp add: NewManyToOne_def eval_nat_numeral)
  have h2: "0 < sint (2 :: 64 word)" by simp
  have h3: "length (written ?ops) < 2 ^ 64" by simp
  have e: "map (\<lambda>k. \<lparr>data = written ?ops ! k, seq = (of_nat k :: uint64)\<rparr>)
             [0..<length (written ?ops)] =
           [\<lparr>data = 10, seq = 0\<rparr>, \<lparr>data = 11, seq = 1\<rparr>, \<lparr>data = 12, seq = 2\<rparr>]"
    by (simp add: upt_rec)
  have inst: "writeIndex ?fresh = 0 - 1 \<and> unat (writeIndex ?fresh) = 2 ^ 64 - 1 \<and>
      writeIndex ?fresh + 1 = 0 \<and>
      (0 < sint (2 :: 64 word) \<longrightarrow> writeIndex (fst (Set ?fresh 10)) = 0) \<and>
      (0 < sint (2 :: 64 word) \<and> length (written ?ops) < 2 ^ 64 \<longrightarrow>
         completed ?fresh ?ops =
           map (\<lambda>k. \<lparr>data = written ?ops ! k, seq = of_nat k\<rparr>) [0..<length (written ?ops)])"
    using h1 by (rule write_cursor_initialization)
  have w: "writeIndex (fst (Set ?fresh 10)) = 0"
    by (rule inst [THEN conjunct2, THEN conjunct2, THEN conjunct2, THEN conjunct1,
          THEN mp, OF h2])
  have c: "completed ?fresh ?ops =
      map (\<lambda>k. \<lparr>data = written ?ops ! k, seq = of_nat k\<rparr>) [0..<length (written ?ops)]"
    by (rule inst [THEN conjunct2, THEN conjunct2, THEN conjunct2, THEN conjunct2,
          THEN mp, OF conjI [OF h2 h3]])
  have i: "writeIndex ?fresh = 0 - 1" by simp
  show ?thesis
    using i w c [unfolded e] by (intro conjI)
qed



text \<open>
  C10. A read leaves the buffer as it was: in every state, whatever \<open>TryNext\<close> returns (a
  value, a value after a catch-up, nothing, or a panic), every slot of the buffer holds
  after the call what it held before, the slot just read included.
\<close>

theorem TryNext_leaves_buffer_unchanged: "buffer (fst (TryNext d)) = buffer d"
  by (rule TryNext_buffer)

end
